theory Spec2Isabelle
  imports Complex_Main "HOL-Library.Word"
begin

section \<open>User-space pulse tracker (ranger-u: pulse\_measure.hpp, pulse\_measure.cpp)\<close>

text \<open>
  Timestamps and widths are \<open>std::chrono::nanoseconds\<close>; they are modelled by their
  tick count as \<open>int\<close> (signed overflow is undefined in C++, so the model covers
  exactly the defined runs). A \<open>double\<close> is idealised as a \<open>real\<close>: rounding of
  the floating-point operations is outside the model.
\<close>

datatype Edge = Rising | Falling

record EdgeStamp =
  edge :: Edge
  ts :: int

record Pulse =
  width :: int
  distance_m :: real

record PulseTracker =
  t_rise :: "int option"
  c_speed :: real

text \<open>
  The members \<^verbatim>\<open>t_rise_\<close> and \<^verbatim>\<open>c_\<close> of the class are the fields \<open>t_rise\<close> and
  \<open>c_speed\<close> (a name cannot end in an underscore here). The constructor
  \<^verbatim>\<open>PulseTracker(double sound_speed) : c_(sound_speed) {}\<close> stores its argument
  and checks nothing.
\<close>

definition PulseTracker_new :: "real \<Rightarrow> PulseTracker" where
  "PulseTracker_new sound_speed = \<lparr>t_rise = None, c_speed = sound_speed\<rparr>"

text \<open>
  \<open>PulseTracker::on_edge\<close>: the tracker is mutated in place in the source; the model
  returns the new tracker together with the optional pulse.
\<close>

definition on_edge :: "PulseTracker \<Rightarrow> EdgeStamp \<Rightarrow> PulseTracker \<times> Pulse option" where
  "on_edge tr es =
     (if edge es = Rising then (tr\<lparr>t_rise := Some (ts es)\<rparr>, None)
      else (case t_rise tr of
              Some r \<Rightarrow>
                (let w = ts es - r;
                     t_s = real_of_int w * (1 / 10 ^ 9);
                     dist = (c_speed tr * t_s) / 2
                 in (tr\<lparr>t_rise := None\<rparr>, Some \<lparr>width = w, distance_m = dist\<rparr>))
            | None \<Rightarrow> (tr, None)))"

section \<open>Kernel module (ranger-k: ranger\_k.c)\<close>

text \<open>
  \<open>ktime_t\<close> and \<open>s64\<close> are 64-bit words (read as signed by \<open>sint\<close>), \<open>u32\<close>
  counters are 32-bit words, so \<open>+\<close> and \<open>*\<close> wrap as in the kernel. The fields
  \<open>irq\<close> and \<open>gdesc\<close> of \<open>struct sensor_state\<close> are set at module load and never
  touched by the handler; they are left out. The global \<open>g\<close> is the record
  \<open>g_state\<close> with the array \<open>g.s\<close> as the list \<open>g_s\<close>.
\<close>

type_synonym u32 = "32 word"
type_synonym s64 = "64 word"

definition MAX_SENSORS :: nat where
  "MAX_SENSORS = 5"

record sensor_state =
  have_rise :: bool
  rise_ts :: s64
  dist_um :: u32
  pulses :: u32
  overruns :: u32

record g_state =
  g_s :: "sensor_state list"
  g_seq :: u32

text \<open>
  \<open>(u32)div64_u64((u64)width_ns * 171500ULL, 1000000ULL)\<close>: the product wraps at 64
  bits, the division is unsigned, the cast keeps the low 32 bits.
\<close>

definition width_ns_to_um :: "s64 \<Rightarrow> u32" where
  "width_ns_to_um width_ns = ucast ((width_ns * 171500) div 1000000)"

text \<open>
  \<open>echo_irq_thread\<close>, the part under the spinlock. \<open>idx\<close> is the \<open>dev_id\<close> the
  handler was registered with, \<open>now\<close> the value of \<open>ktime_get()\<close> and \<open>level\<close>
  the value of \<open>gpiod_get_value_cansleep\<close>; any nonzero level takes the rising branch.
\<close>

definition echo_irq_thread :: "nat \<Rightarrow> s64 \<Rightarrow> int \<Rightarrow> g_state \<Rightarrow> g_state" where
  "echo_irq_thread idx now level g =
     (let s0 = g_s g ! idx;
          s1 = (if level \<noteq> 0 then s0\<lparr>have_rise := True, rise_ts := now\<rparr>
                else if have_rise s0 then
                  (let dt = now - rise_ts s0
                   in s0\<lparr>have_rise := False, pulses := pulses s0 + 1,
                          dist_um := width_ns_to_um dt\<rparr>)
                else s0\<lparr>overruns := overruns s0 + 1\<rparr>)
      in g\<lparr>g_s := (g_s g)[idx := s1], g_seq := g_seq g + 1\<rparr>)"

text \<open>The static global \<open>g\<close> starts zero-initialised.\<close>

definition g_init :: g_state where
  "g_init =
     \<lparr>g_s = replicate MAX_SENSORS
              \<lparr>have_rise = False, rise_ts = 0, dist_um = 0, pulses = 0, overruns = 0\<rparr>,
      g_seq = 0\<rparr>"

text \<open>
  The two debugfs reads, the part under the spinlock: \<^verbatim>\<open>distances_read\<close> copies the
  five \<^verbatim>\<open>dist_um\<close>, \<^verbatim>\<open>stats_read\<close> copies \<^verbatim>\<open>seq\<close> and the five \<^verbatim>\<open>pulses\<close> and
  \<^verbatim>\<open>overruns\<close>. The formatting of the copies into text is left out. Neither read
  changes \<open>g\<close>.
\<close>

definition distances_read :: "g_state \<Rightarrow> u32 list" where
  "distances_read g = map (\<lambda>i. dist_um (g_s g ! i)) [0..<MAX_SENSORS]"

definition stats_read :: "g_state \<Rightarrow> u32 \<times> u32 list \<times> u32 list" where
  "stats_read g =
     (g_seq g,
      map (\<lambda>i. pulses (g_s g ! i)) [0..<MAX_SENSORS],
      map (\<lambda>i. overruns (g_s g ! i)) [0..<MAX_SENSORS])"

text \<open>
  The handler and the two reads each run under \<^verbatim>\<open>g.lock\<close>, taken with interrupts off,
  so a run of concurrent handlers and readers is a sequence of these three kinds of step
  in the order in which they took the lock.
\<close>

datatype step = Irq nat s64 int | Read_distances | Read_stats

datatype copy = Distances "u32 list" | Stats u32 "u32 list" "u32 list"

fun do_step :: "step \<Rightarrow> g_state \<Rightarrow> g_state \<times> copy option" where
  "do_step (Irq idx now level) g = (echo_irq_thread idx now level g, None)"
| "do_step Read_distances g = (g, Some (Distances (distances_read g)))"
| "do_step Read_stats g =
     (case stats_read g of (sq, ps, os) \<Rightarrow> (g, Some (Stats sq ps os)))"

text \<open>The state after a run, and what each step of it returned to its reader.\<close>

fun run_steps :: "step list \<Rightarrow> g_state \<Rightarrow> g_state \<times> copy option list" where
  "run_steps [] g = (g, [])"
| "run_steps (x # xs) g =
     (case do_step x g of
        (g1, c) \<Rightarrow> (case run_steps xs g1 of (g2, cs) \<Rightarrow> (g2, c # cs)))"

text \<open>The states a run passes through, the first one included.\<close>

fun history :: "step list \<Rightarrow> g_state \<Rightarrow> g_state list" where
  "history [] g = [g]"
| "history (x # xs) g = g # history xs (fst (do_step x g))"

text \<open>The distance, pulse count and overrun count of sensor \<open>i\<close> in one state.\<close>

definition chan_triple :: "nat \<Rightarrow> g_state \<Rightarrow> u32 \<times> u32 \<times> u32" where
  "chan_triple i g = (dist_um (g_s g ! i), pulses (g_s g ! i), overruns (g_s g ! i))"

text \<open>
  Two pulses on sensor 0, of 2 ms and of 4 ms, with the distances read after the first
  and the counters after the second.
\<close>

definition torn_run :: "step list" where
  "torn_run =
     [Irq 0 1000 1, Irq 0 2001000 0, Read_distances,
      Irq 0 3000000 1, Irq 0 7000000 0, Read_stats]"

section \<open>Median filter (ranger-u: filter\_median.hpp)\<close>

text \<open>
  \<^verbatim>\<open>MedianFilter\<close> holds the window size \<^verbatim>\<open>win_\<close> (field \<open>win\<close>) and the deque
  \<^verbatim>\<open>buf_\<close> (field \<open>buf\<close>, front first). The filter only compares its values, so the
  element type is any linear order; in the program it is \<open>double\<close>, read as \<open>real\<close>.
  The constructor \<^verbatim>\<open>MedianFilter(size_t win=5):win_(win){}\<close> checks nothing.
\<close>

record 'a MedianFilter =
  win :: nat
  buf :: "'a list"

definition MedianFilter_new :: "nat \<Rightarrow> 'a MedianFilter" where
  "MedianFilter_new w = \<lparr>win = w, buf = []\<rparr>"

text \<open>
  Reading a \<^verbatim>\<open>std::vector\<close> or \<^verbatim>\<open>std::array\<close> with \<^verbatim>\<open>operator[]\<close> outside its
  size is undefined behaviour; the model stops there with \<open>OutOfRange\<close>.
\<close>

datatype fault = OutOfRange

text \<open>
  \<^verbatim>\<open>push\<close>: append, drop the front when the deque is longer than the window, return
  nothing while it is shorter, otherwise the element at index \<^verbatim>\<open>size/2\<close> of a sorted copy.
\<close>

definition push :: "'a::linorder MedianFilter \<Rightarrow> 'a \<Rightarrow> fault + ('a MedianFilter \<times> 'a option)" where
  "push f v =
     (let b1 = buf f @ [v];
          b2 = (if length b1 > win f then tl b1 else b1)
      in if length b2 < win f then Inr (f\<lparr>buf := b2\<rparr>, None)
         else (let tmp = sort b2
               in if length tmp div 2 < length tmp
                  then Inr (f\<lparr>buf := b2\<rparr>, Some (tmp ! (length tmp div 2)))
                  else Inl OutOfRange))"

text \<open>A caller pushing the values of a list one after the other, collecting the results.\<close>

fun push_all :: "'a::linorder MedianFilter \<Rightarrow> 'a list \<Rightarrow> fault + ('a MedianFilter \<times> 'a option list)" where
  "push_all f [] = Inr (f, [])"
| "push_all f (v # vs) =
     (case push f v of
        Inl e \<Rightarrow> Inl e
      | Inr (f', out) \<Rightarrow>
          (case push_all f' vs of
             Inl e \<Rightarrow> Inl e
           | Inr (f'', outs) \<Rightarrow> Inr (f'', out # outs)))"

subsection \<open>What the specification calls the window and the median\<close>

text \<open>The last \<open>w\<close> values of a history \<open>h\<close> (all of it while it is shorter).\<close>

definition window :: "nat \<Rightarrow> 'a list \<Rightarrow> 'a list" where
  "window w h = drop (length h - w) h"

text \<open>
  The result expected after the history \<open>h\<close> has been pushed: nothing before \<open>w\<close>
  values, then the element at index \<open>w div 2\<close> of the sorted window.
\<close>

definition median_out :: "nat \<Rightarrow> 'a::linorder list \<Rightarrow> 'a option" where
  "median_out w h = (if length h < w then None else Some (sort (window w h) ! (w div 2)))"

text \<open>
  A median of \<open>ys\<close>, in the specification's sense, independent of sorting: a member with
  fewer than half of the values below it and fewer than half above it.
\<close>

definition is_median :: "'a::linorder list \<Rightarrow> 'a \<Rightarrow> bool" where
  "is_median ys m \<longleftrightarrow>
     m \<in> set ys \<and>
     2 * length (filter (\<lambda>y. y < m) ys) < length ys \<and>
     2 * length (filter (\<lambda>y. m < y) ys) < length ys"

section \<open>User-space main loop (ranger-u: main.cpp)\<close>

text \<open>
  \<^verbatim>\<open>SensorCtx\<close> holds the GPIO line (the source of the events, not modelled), a
  tracker built with 343.0 and a filter built with window 5.
\<close>

record SensorCtx =
  tracker :: PulseTracker
  mf :: "real MedianFilter"

definition SensorCtx_new :: SensorCtx where
  "SensorCtx_new = \<lparr>tracker = PulseTracker_new 343, mf = MedianFilter_new 5\<rparr>"

text \<open>
  The state of \<^verbatim>\<open>main\<close>: the sensors (one per entry of \<^verbatim>\<open>--lines\<close>), the telemetry
  frame \<^verbatim>\<open>tf.dist_m\<close> (a \<^verbatim>\<open>std::array<float,5>\<close>, value-initialised to zeros) and
  \<^verbatim>\<open>next_print\<close>, which starts at \<^verbatim>\<open>t0\<close>. Time points and \<^verbatim>\<open>print_interval\<close> are
  tick counts of the steady clock, as \<open>int\<close>.
\<close>

record main_state =
  sensors :: "SensorCtx list"
  tf :: "real list"
  next_print :: int

definition main_init :: "nat \<Rightarrow> int \<Rightarrow> main_state" where
  "main_init n t0 = \<lparr>sensors = replicate n SensorCtx_new, tf = replicate 5 0, next_print = t0\<rparr>"

text \<open>
  Lines 123 to 128, one event \<open>es\<close> read from sensor \<open>idx\<close>: the tracker sees the edge,
  a pulse goes to the filter, a median goes to \<^verbatim>\<open>tf.dist_m[idx]\<close> through
  \<^verbatim>\<open>static_cast<float>\<close>. The narrowing conversion is the parameter \<open>f32\<close>. Writing
  \<^verbatim>\<open>tf.dist_m[idx]\<close> outside the five entries is undefined behaviour.
\<close>

definition handle_event ::
    "(real \<Rightarrow> real) \<Rightarrow> nat \<Rightarrow> EdgeStamp \<Rightarrow> main_state \<Rightarrow> fault + main_state" where
  "handle_event f32 idx es st =
     (let sc = sensors st ! idx
      in case on_edge (tracker sc) es of
           (tr', None) \<Rightarrow> Inr (st\<lparr>sensors := (sensors st)[idx := sc\<lparr>tracker := tr'\<rparr>]\<rparr>)
         | (tr', Some p) \<Rightarrow>
             (case push (mf sc) (distance_m p) of
                Inl e \<Rightarrow> Inl e
              | Inr (mf', None) \<Rightarrow>
                  Inr (st\<lparr>sensors := (sensors st)[idx := sc\<lparr>tracker := tr', mf := mf'\<rparr>]\<rparr>)
              | Inr (mf', Some m) \<Rightarrow>
                  if idx < length (tf st)
                  then Inr (st\<lparr>sensors := (sensors st)[idx := sc\<lparr>tracker := tr', mf := mf'\<rparr>],
                              tf := (tf st)[idx := f32 m]\<rparr>)
                  else Inl OutOfRange))"

text \<open>
  The inner \<^verbatim>\<open>while (true)\<close> of the drain: the events \<^verbatim>\<open>read_event\<close> returns for one
  sensor before it returns nothing, handled in order.
\<close>

fun drain_sensor ::
    "(real \<Rightarrow> real) \<Rightarrow> nat \<Rightarrow> EdgeStamp list \<Rightarrow> main_state \<Rightarrow> fault + main_state" where
  "drain_sensor f32 idx [] st = Inr st"
| "drain_sensor f32 idx (es # rest) st =
     (case handle_event f32 idx es st of
        Inl e \<Rightarrow> Inl e
      | Inr st' \<Rightarrow> drain_sensor f32 idx rest st')"

text \<open>The events waiting on sensor \<open>idx\<close> in one iteration (none when the list is short).\<close>

definition queue_of :: "EdgeStamp list list \<Rightarrow> nat \<Rightarrow> EdgeStamp list" where
  "queue_of qs idx = (if idx < length qs then qs ! idx else [])"

text \<open>The outer \<^verbatim>\<open>for\<close> of the drain, over the sensor indices in order.\<close>

fun drain_all ::
    "(real \<Rightarrow> real) \<Rightarrow> nat list \<Rightarrow> EdgeStamp list list \<Rightarrow> main_state \<Rightarrow> fault + main_state" where
  "drain_all f32 [] qs st = Inr st"
| "drain_all f32 (idx # idxs) qs st =
     (case drain_sensor f32 idx (queue_of qs idx) st of
        Inl e \<Rightarrow> Inl e
      | Inr st' \<Rightarrow> drain_all f32 idxs qs st')"

text \<open>
  One iteration of the \<^verbatim>\<open>while (!g_stop)\<close> loop that reaches the drain: the events
  \<open>qs\<close> are drained, \<open>now\<close> is read, and when \<^verbatim>\<open>now >= next_print\<close> the frame is
  printed (the result \<open>Some (now, frame)\<close>) and \<^verbatim>\<open>next_print += print_interval\<close>.
\<close>

definition loop_iter ::
    "(real \<Rightarrow> real) \<Rightarrow> int \<Rightarrow> EdgeStamp list list \<times> int \<Rightarrow> main_state
       \<Rightarrow> fault + (main_state \<times> (int \<times> real list) option)" where
  "loop_iter f32 print_interval it st =
     (case drain_all f32 [0..<length (sensors st)] (fst it) st of
        Inl e \<Rightarrow> Inl e
      | Inr st' \<Rightarrow>
          if snd it \<ge> next_print st'
          then Inr (st'\<lparr>next_print := next_print st' + print_interval\<rparr>, Some (snd it, tf st'))
          else Inr (st', None))"

fun main_loop ::
    "(real \<Rightarrow> real) \<Rightarrow> int \<Rightarrow> (EdgeStamp list list \<times> int) list \<Rightarrow> main_state
       \<Rightarrow> fault + (main_state \<times> (int \<times> real list) option list)" where
  "main_loop f32 print_interval [] st = Inr (st, [])"
| "main_loop f32 print_interval (it # its) st =
     (case loop_iter f32 print_interval it st of
        Inl e \<Rightarrow> Inl e
      | Inr (st', out) \<Rightarrow>
          (case main_loop f32 print_interval its st' of
             Inl e \<Rightarrow> Inl e
           | Inr (st'', outs) \<Rightarrow> Inr (st'', out # outs)))"

text \<open>The times at which a frame was printed, in order.\<close>

definition print_times :: "(int \<times> real list) option list \<Rightarrow> int list" where
  "print_times outs = concat (map (\<lambda>out. case out of None \<Rightarrow> [] | Some (now, fr) \<Rightarrow> [now]) outs)"

subsection \<open>One channel seen on its own\<close>

text \<open>The pulses a tracker returns over a list of edges, and the tracker left at the end.\<close>

fun pulses_of :: "PulseTracker \<Rightarrow> EdgeStamp list \<Rightarrow> PulseTracker \<times> Pulse list" where
  "pulses_of tr [] = (tr, [])"
| "pulses_of tr (es # evs) =
     (case on_edge tr es of
        (tr', p) \<Rightarrow>
          (case pulses_of tr' evs of
             (tr'', ps) \<Rightarrow> (tr'', (case p of None \<Rightarrow> [] | Some pl \<Rightarrow> [pl]) @ ps)))"

text \<open>The distances of the pulses completed on a fresh channel over the edges \<open>evs\<close>.\<close>

definition dists :: "EdgeStamp list \<Rightarrow> real list" where
  "dists evs = map distance_m (snd (pulses_of (PulseTracker_new 343) evs))"

text \<open>
  The value expected in the frame for a channel with the edges \<open>evs\<close> behind it: zero
  before five pulses, then the converted median of the last five distances.
\<close>

definition chan_value :: "(real \<Rightarrow> real) \<Rightarrow> EdgeStamp list \<Rightarrow> real" where
  "chan_value f32 evs =
     (if length (dists evs) < 5 then 0 else f32 (sort (window 5 (dists evs)) ! 2))"

text \<open>The edges of channel \<open>idx\<close> over a list of iterations.\<close>

definition chan_events :: "nat \<Rightarrow> (EdgeStamp list list \<times> int) list \<Rightarrow> EdgeStamp list" where
  "chan_events idx its = concat (map (\<lambda>it. queue_of (fst it) idx) its)"

text \<open>
  What holds of one channel after the edges \<open>evs\<close>, and of the whole state when channel
  \<open>i\<close> has seen the edges \<open>H i\<close>: the invariant of the drain.
\<close>

definition chan_ok :: "(real \<Rightarrow> real) \<Rightarrow> SensorCtx \<Rightarrow> real \<Rightarrow> EdgeStamp list \<Rightarrow> bool" where
  "chan_ok f32 sc d evs \<longleftrightarrow>
     tracker sc = fst (pulses_of (PulseTracker_new 343) evs) \<and>
     mf sc = \<lparr>win = 5, buf = window 5 (dists evs)\<rparr> \<and>
     d = chan_value f32 evs"

definition state_ok :: "(real \<Rightarrow> real) \<Rightarrow> nat \<Rightarrow> (nat \<Rightarrow> EdgeStamp list) \<Rightarrow> main_state \<Rightarrow> bool" where
  "state_ok f32 n H st \<longleftrightarrow>
     length (sensors st) = n \<and> length (tf st) = 5 \<and> n \<le> 5 \<and>
     (\<forall>i < n. chan_ok f32 (sensors st ! i) (tf st ! i) (H i))"



section \<open>CAN bridge rate limiter (ranger-can: ranger\_can.cpp)\<close>

text \<open>
  \<^verbatim>\<open>rate_hz\<close> and \<^verbatim>\<open>min_interval_ns\<close> are \<open>double\<close>s, given by their values in
  the reals; \<^verbatim>\<open>now_ns\<close> and \<^verbatim>\<open>last_sent_ns\<close> are \<^verbatim>\<open>uint64_t\<close>. Two operations of
  the machine round, and the rounding can decide whether a frame is sent, so both are
  parameters of the model: \<open>ddiv\<close>, the division of two \<open>double\<close>s, and \<open>u64_to_double\<close>,
  the conversion the comparison applies to the wrapping difference
  \<^verbatim>\<open>now_ns - last_sent_ns\<close>.
\<close>

type_synonym u64 = "64 word"

definition rate_limit :: "real \<Rightarrow> bool" where
  "rate_limit rate_hz \<longleftrightarrow> rate_hz > 0"

definition min_interval_ns :: "(real \<Rightarrow> real \<Rightarrow> real) \<Rightarrow> real \<Rightarrow> real" where
  "min_interval_ns ddiv rate_hz = (if rate_limit rate_hz then ddiv (10 ^ 9) rate_hz else 0)"

text \<open>
  Lines 147 to 156 for one parsed input line: the new \<^verbatim>\<open>last_sent_ns\<close> and whether the
  frame went to \<^verbatim>\<open>send\<close>.
\<close>

definition can_tick ::
    "(real \<Rightarrow> real \<Rightarrow> real) \<Rightarrow> (u64 \<Rightarrow> real) \<Rightarrow> real \<Rightarrow> u64 \<Rightarrow> u64 \<Rightarrow> u64 \<times> bool" where
  "can_tick ddiv u64_to_double rate_hz now_ns last_sent_ns =
     (if rate_limit rate_hz \<and> last_sent_ns \<noteq> 0 \<and>
         u64_to_double (now_ns - last_sent_ns) < min_interval_ns ddiv rate_hz
      then (last_sent_ns, False)
      else (now_ns, True))"

text \<open>The loop over the parsed lines, given the clock reading of each: the send times.\<close>

fun can_loop ::
    "(real \<Rightarrow> real \<Rightarrow> real) \<Rightarrow> (u64 \<Rightarrow> real) \<Rightarrow> real \<Rightarrow> u64 \<Rightarrow> u64 list \<Rightarrow> u64 list" where
  "can_loop ddiv u64_to_double rate_hz last_sent_ns [] = []"
| "can_loop ddiv u64_to_double rate_hz last_sent_ns (now_ns # rest) =
     (case can_tick ddiv u64_to_double rate_hz now_ns last_sent_ns of
        (last', sent) \<Rightarrow>
          (if sent then [now_ns] else []) @ can_loop ddiv u64_to_double rate_hz last' rest)"

text \<open>The conversion without rounding, exact for every difference below \<open>2^53\<close>.\<close>

definition u64_exact :: "u64 \<Rightarrow> real" where
  "u64_exact w = real (unat w)"

section \<open>Pulse tracker: edges\<close>

text \<open>
  C9. On a rising edge \<open>on_edge\<close> stores the event's timestamp as the rise time
  (the tracker is armed afterwards) and returns no pulse, whatever the tracker held
  before: an already armed tracker has its rise time overwritten. The kernel handler
  does the same on a high level and counts neither a pulse nor an overrun.
\<close>

theorem rising_edge_arms:
  "(edge es = Rising \<longrightarrow>
      on_edge tr es = (tr\<lparr>t_rise := Some (ts es)\<rparr>, None)) \<and>
   (idx < length (g_s g) \<and> level \<noteq> 0 \<longrightarrow>
      (let s0 = g_s g ! idx; s1 = g_s (echo_irq_thread idx now level g) ! idx
       in have_rise s1 \<and> rise_ts s1 = now \<and> overruns s1 = overruns s0 \<and>
          pulses s1 = pulses s0 \<and> dist_um s1 = dist_um s0))"
  by (simp add: on_edge_def echo_irq_thread_def Let_def)

theorem rising_edge_arms_witness:
  "on_edge \<lparr>t_rise = Some 100, c_speed = 343\<rparr> \<lparr>edge = Rising, ts = 250\<rparr>
     = (\<lparr>t_rise = Some 250, c_speed = 343\<rparr>, None) \<and>
   (let s0 = g_s (echo_irq_thread 1 100 1 g_init) ! 1;
        s1 = g_s (echo_irq_thread 1 250 1 (echo_irq_thread 1 100 1 g_init)) ! 1
    in have_rise s0 \<and> rise_ts s0 = 100 \<and> have_rise s1 \<and> rise_ts s1 = 250 \<and>
       overruns s1 = 0 \<and> pulses s1 = 0 \<and> dist_um s1 = 0)"
  using rising_edge_arms [where es = "\<lparr>edge = Rising, ts = 250\<rparr>"
      and tr = "\<lparr>t_rise = Some 100, c_speed = 343\<rparr>" and idx = 1
      and g = "echo_irq_thread 1 100 1 g_init" and level = 1 and now = 250]
  by (simp add: echo_irq_thread_def g_init_def MAX_SENSORS_def Let_def)

text \<open>
  C1. On a falling edge, an armed tracker (rise time \<open>r\<close> recorded) returns the
  pulse of width \<open>ts - r\<close> and distance \<open>c * width * 1e-9 / 2\<close> and is unarmed
  afterwards; with \<open>c = 343\<close> and a width of 2000000 ns the distance is 0.343 m (exactly,
  in the real-number reading of the doubles). The kernel handler, on a low level with a
  recorded rise, takes the width \<open>now - rise_ts\<close>, clears \<open>have_rise\<close>, counts the
  pulse and stores the converted width.
\<close>

theorem falling_edge_armed_pulse:
  "(t_rise tr = Some r \<and> edge es = Falling \<longrightarrow>
      on_edge tr es =
        (tr\<lparr>t_rise := None\<rparr>,
         Some \<lparr>width = ts es - r,
               distance_m = c_speed tr * real_of_int (ts es - r) * (1 / 10 ^ 9) / 2\<rparr>)) \<and>
   (t_rise tr = Some r \<and> edge es = Falling \<and> c_speed tr = 343 \<and> ts es - r = 2000000 \<longrightarrow>
      (\<exists>p. snd (on_edge tr es) = Some p \<and> width p = 2000000 \<and> distance_m p = 343 / 1000)) \<and>
   (idx < length (g_s g) \<and> level = 0 \<and> have_rise (g_s g ! idx) \<longrightarrow>
      (let s0 = g_s g ! idx; s1 = g_s (echo_irq_thread idx now level g) ! idx
       in \<not> have_rise s1 \<and> pulses s1 = pulses s0 + 1 \<and>
          dist_um s1 = width_ns_to_um (now - rise_ts s0) \<and> overruns s1 = overruns s0))"
  by (simp add: on_edge_def echo_irq_thread_def Let_def)

theorem falling_edge_armed_pulse_witness:
  "on_edge \<lparr>t_rise = Some 1000, c_speed = 343\<rparr> \<lparr>edge = Falling, ts = 2001000\<rparr>
     = (\<lparr>t_rise = None, c_speed = 343\<rparr>,
        Some \<lparr>width = 2000000, distance_m = 343 / 1000\<rparr>) \<and>
   (let s0 = g_s (echo_irq_thread 2 1000 1 g_init) ! 2;
        s1 = g_s (echo_irq_thread 2 2001000 0 (echo_irq_thread 2 1000 1 g_init)) ! 2
    in have_rise s0 \<and> \<not> have_rise s1 \<and> pulses s1 = 1 \<and>
       dist_um s1 = width_ns_to_um 2000000 \<and> overruns s1 = 0)"
  using falling_edge_armed_pulse [where tr = "\<lparr>t_rise = Some 1000, c_speed = 343\<rparr>"
      and r = 1000 and es = "\<lparr>edge = Falling, ts = 2001000\<rparr>" and idx = 2
      and g = "echo_irq_thread 2 1000 1 g_init" and level = 0 and now = 2001000]
  by (simp add: echo_irq_thread_def g_init_def MAX_SENSORS_def Let_def)

text \<open>
  C2. On a falling edge with no rise recorded no pulse is produced: the kernel handler
  adds exactly one to that sensor's \<open>overruns\<close> (a \<open>u32\<close>, so the addition is modulo
  \<open>2^32\<close>) and leaves its \<open>pulses\<close> and \<open>dist_um\<close>, and every other sensor, as they
  were; the user-space tracker returns no pulse and is unchanged.
\<close>

theorem falling_edge_unarmed_overrun:
  "(idx < length (g_s g) \<and> level = 0 \<and> \<not> have_rise (g_s g ! idx) \<longrightarrow>
      (let s0 = g_s g ! idx; g' = echo_irq_thread idx now level g; s1 = g_s g' ! idx
       in overruns s1 = overruns s0 + 1 \<and>
          unat (overruns s1) = (unat (overruns s0) + 1) mod 2 ^ 32 \<and>
          pulses s1 = pulses s0 \<and> dist_um s1 = dist_um s0 \<and> \<not> have_rise s1 \<and>
          length (g_s g') = length (g_s g) \<and>
          (\<forall>j. j < length (g_s g) \<and> j \<noteq> idx \<longrightarrow> g_s g' ! j = g_s g ! j))) \<and>
   (t_rise tr = None \<and> edge es = Falling \<longrightarrow> on_edge tr es = (tr, None))"
  by (simp add: on_edge_def echo_irq_thread_def Let_def unat_word_ariths)

theorem falling_edge_unarmed_overrun_witness:
  "(let g' = echo_irq_thread 3 500 0 g_init; s1 = g_s g' ! 3
    in overruns s1 = 1 \<and> unat (overruns s1) = 1 \<and> pulses s1 = 0 \<and> dist_um s1 = 0 \<and>
       \<not> have_rise s1 \<and> length (g_s g') = 5 \<and> g_s g' ! 0 = g_s g_init ! 0) \<and>
   on_edge \<lparr>t_rise = None, c_speed = 343\<rparr> \<lparr>edge = Falling, ts = 500\<rparr>
     = (\<lparr>t_rise = None, c_speed = 343\<rparr>, None)"
  using falling_edge_unarmed_overrun [where idx = 3 and g = g_init and level = 0
      and now = 500 and tr = "\<lparr>t_rise = None, c_speed = 343\<rparr>"
      and es = "\<lparr>edge = Falling, ts = 500\<rparr>"]
  by (simp add: echo_irq_thread_def g_init_def MAX_SENSORS_def Let_def)

section \<open>Fixed-point conversion\<close>

lemma div_trunc_err:
  assumes "0 < b"
  shows "0 \<le> real a / real b - real (a div b) \<and> real a / real b - real (a div b) < 1"
proof -
  have e: "real a / real b = real (a div b) + real (a mod b) / real b"
    by (rule of_nat_of_nat_div_aux)
  have u: "real (a mod b) / real b < 1"
    using assms by simp
  have l: "0 \<le> real (a mod b) / real b"
    by simp
  show ?thesis using e u l by linarith
qed

lemma width_ns_to_um_wraps:
  "unat (width_ns_to_um w) = ((unat w * 171500) mod 2 ^ 64 div 1000000) mod 2 ^ 32"
  unfolding width_ns_to_um_def
  by (simp add: unsigned_ucast_eq take_bit_eq_mod unat_div unat_word_ariths)

lemma width_ns_to_um_small:
  assumes "unat w < 25043541085"
  shows "unat (width_ns_to_um w) = unat w * 171500 div 1000000"
proof -
  have "unat w * 171500 < 2 ^ 64" using assms by simp
  moreover have "unat w * 171500 div 1000000 < 2 ^ 32" using assms by simp
  ultimately show ?thesis by (simp add: width_ns_to_um_wraps)
qed

lemma sint_nonneg_unat:
  fixes w :: "64 word"
  assumes "0 \<le> sint w"
  shows "unat w = nat (sint w)"
proof -
  have "sint w < 2 ^ 64"
    using sint_lt [of w] by simp
  then have "uint w = sint w"
    using assms by (simp add: uint_sint take_bit_int_eq_self)
  then show ?thesis by (simp add: unat_eq_nat_uint)
qed

text \<open>
  C3, as the code has it. \<open>width_ns_to_um\<close> returns the quotient of
  \<open>width_ns * 171500\<close> by \<open>1000000\<close>, the product taken modulo \<open>2^64\<close> and the
  quotient modulo \<open>2^32\<close>. For a width from 0 up to 25043541084 ns (the widths whose
  distance fits the \<open>u32\<close> result) this is \<open>width_ns * 171500 div 1000000\<close>, it lies
  at most 1 micrometre below the form \<open>343 * width_ns * 1e-9 / 2\<close> metres (read in the
  reals), never above it, and 2000000 ns give exactly 343000 micrometres.
\<close>

theorem width_ns_to_um_fixed_point:
  "unat (width_ns_to_um w) = ((unat w * 171500) mod 2 ^ 64 div 1000000) mod 2 ^ 32 \<and>
   (0 \<le> sint w \<and> sint w < 25043541085 \<longrightarrow>
      unat (width_ns_to_um w) = nat (sint w) * 171500 div 1000000 \<and>
      0 \<le> 343 * real_of_int (sint w) * (1 / 10 ^ 9) / 2 * 10 ^ 6
            - real (unat (width_ns_to_um w)) \<and>
      343 * real_of_int (sint w) * (1 / 10 ^ 9) / 2 * 10 ^ 6
            - real (unat (width_ns_to_um w)) < 1) \<and>
   width_ns_to_um 2000000 = 343000"
proof (intro conjI impI)
  show "unat (width_ns_to_um w) = ((unat w * 171500) mod 2 ^ 64 div 1000000) mod 2 ^ 32"
    by (rule width_ns_to_um_wraps)
next
  show "width_ns_to_um 2000000 = 343000"
    by (simp add: width_ns_to_um_def)
next
  assume h: "0 \<le> sint w \<and> sint w < 25043541085"
  then have n: "unat w = nat (sint w)"
    by (simp add: sint_nonneg_unat)
  have b: "unat w < 25043541085"
    using h unfolding n by linarith
  have r: "real_of_int (sint w) = real (unat w)"
    using h n by simp
  show v: "unat (width_ns_to_um w) = nat (sint w) * 171500 div 1000000"
    using width_ns_to_um_small [OF b] n by simp
  have f: "343 * real (unat w) * (1 / 10 ^ 9) / 2 * 10 ^ 6
             = real (unat w * 171500) / real 1000000"
    by simp
  have e: "0 \<le> real (unat w * 171500) / real 1000000 - real (unat w * 171500 div 1000000) \<and>
           real (unat w * 171500) / real 1000000 - real (unat w * 171500 div 1000000) < 1"
    by (rule div_trunc_err) simp
  show "0 \<le> 343 * real_of_int (sint w) * (1 / 10 ^ 9) / 2 * 10 ^ 6
            - real (unat (width_ns_to_um w))"
    using e f unfolding r width_ns_to_um_small [OF b] by linarith
  show "343 * real_of_int (sint w) * (1 / 10 ^ 9) / 2 * 10 ^ 6
            - real (unat (width_ns_to_um w)) < 1"
    using e f unfolding r width_ns_to_um_small [OF b] by linarith
qed

theorem width_ns_to_um_fixed_point_witness:
  "unat (width_ns_to_um 1001) = 171 \<and>
   0 \<le> 343 * real_of_int (sint (1001 :: 64 word)) * (1 / 10 ^ 9) / 2 * 10 ^ 6 - 171 \<and>
   343 * real_of_int (sint (1001 :: 64 word)) * (1 / 10 ^ 9) / 2 * 10 ^ 6 - 171 < 1 \<and>
   width_ns_to_um 2000000 = 343000"
  using width_ns_to_um_fixed_point [of 1001] by simp

text \<open>
  The claim as written, for every non-negative width, fails at 25043541085 ns: the
  quotient is \<open>2^32\<close> and the \<open>u32\<close> result is 0.
\<close>

theorem width_ns_to_um_truncates:
  "0 \<le> sint (25043541085 :: 64 word) \<and>
   unat (width_ns_to_um 25043541085) = 0 \<and>
   nat (sint (25043541085 :: 64 word)) * 171500 div 1000000 = 4294967296"
  by (simp add: width_ns_to_um_def)

section \<open>Median filter: window and median\<close>

lemma length_window: "length (window w h) = min w (length h)"
  by (auto simp: window_def)

lemma window_snoc:
  "0 < w \<Longrightarrow> window w (h @ [v]) =
     (if length (window w h @ [v]) > w then tl (window w h @ [v]) else window w h @ [v])"
  by (auto simp: window_def drop_Suc Suc_diff_le tl_drop simp flip: drop_tl)

lemma push_step:
  assumes "0 < win f" and "buf f = window (win f) h"
  shows "push f v = Inr (f\<lparr>buf := window (win f) (h @ [v])\<rparr>, median_out (win f) (h @ [v]))"
  using assms
  by (auto simp: push_def Let_def median_out_def window_snoc length_window min_def)

lemma push_all_spec:
  assumes "0 < win f" and "buf f = window (win f) h"
  shows "push_all f vs =
           Inr (f\<lparr>buf := window (win f) (h @ vs)\<rparr>,
                map (\<lambda>k. median_out (win f) (h @ take (Suc k) vs)) [0..<length vs])"
  using assms
proof (induction vs arbitrary: f h)
  case Nil
  then show ?case by simp
next
  case (Cons v vs)
  let ?f = "f\<lparr>buf := window (win f) (h @ [v])\<rparr>"
  have s: "push f v = Inr (?f, median_out (win f) (h @ [v]))"
    using Cons.prems by (rule push_step)
  have "push_all ?f vs =
          Inr (?f\<lparr>buf := window (win ?f) ((h @ [v]) @ vs)\<rparr>,
               map (\<lambda>k. median_out (win ?f) ((h @ [v]) @ take (Suc k) vs)) [0..<length vs])"
    using Cons.prems by (intro Cons.IH) simp_all
  then show ?case
    using s by (simp add: map_upt_Suc del: upt_Suc)
qed


lemma count_less_sorted:
  assumes "sorted s" and "k < length s"
  shows "length (filter (\<lambda>y. y < s ! k) s) \<le> k"
proof -
  have "\<forall>y \<in> set (drop k s). \<not> y < s ! k"
  proof
    fix y assume "y \<in> set (drop k s)"
    then obtain j where "j < length s - k" and y: "y = s ! (k + j)"
      by (auto simp: in_set_conv_nth)
    then have "s ! k \<le> s ! (k + j)"
      using assms by (intro sorted_nth_mono) simp_all
    then show "\<not> y < s ! k" using y by simp
  qed
  then have e: "filter (\<lambda>y. y < s ! k) (drop k s) = []"
    by (simp add: filter_empty_conv)
  have "filter (\<lambda>y. y < s ! k) s
          = filter (\<lambda>y. y < s ! k) (take k s) @ filter (\<lambda>y. y < s ! k) (drop k s)"
    by (simp flip: filter_append)
  then have "length (filter (\<lambda>y. y < s ! k) s) = length (filter (\<lambda>y. y < s ! k) (take k s))"
    using e by simp
  also have "\<dots> \<le> length (take k s)"
    by (rule length_filter_le)
  finally show ?thesis using assms by simp
qed

lemma count_greater_sorted:
  assumes "sorted s" and "k < length s"
  shows "length (filter (\<lambda>y. s ! k < y) s) \<le> length s - Suc k"
proof -
  have "\<forall>y \<in> set (take (Suc k) s). \<not> s ! k < y"
  proof
    fix y assume "y \<in> set (take (Suc k) s)"
    then obtain j where "j < Suc k" and y: "y = s ! j"
      using assms by (auto simp: in_set_conv_nth)
    then have "s ! j \<le> s ! k"
      using assms by (intro sorted_nth_mono) simp_all
    then show "\<not> s ! k < y" using y by simp
  qed
  then have e: "filter (\<lambda>y. s ! k < y) (take (Suc k) s) = []"
    by (simp add: filter_empty_conv)
  have "filter (\<lambda>y. s ! k < y) s
          = filter (\<lambda>y. s ! k < y) (take (Suc k) s) @ filter (\<lambda>y. s ! k < y) (drop (Suc k) s)"
    by (simp flip: filter_append)
  then have "length (filter (\<lambda>y. s ! k < y) s)
               = length (filter (\<lambda>y. s ! k < y) (drop (Suc k) s))"
    using e by simp
  also have "\<dots> \<le> length (drop (Suc k) s)"
    by (rule length_filter_le)
  finally show ?thesis by simp
qed

lemma length_filter_sort:
  "length (filter P (sort ys)) = length (filter P ys)"
  by (simp add: filter_sort)

lemma sort_nth_counts:
  assumes "k < length ys"
  shows "sort ys ! k \<in> set ys"
    and "length (filter (\<lambda>y. y < sort ys ! k) ys) \<le> k"
    and "length (filter (\<lambda>y. sort ys ! k < y) ys) \<le> length ys - Suc k"
proof -
  have k: "k < length (sort ys)" using assms by simp
  then have "sort ys ! k \<in> set (sort ys)" by (rule nth_mem)
  then show "sort ys ! k \<in> set ys" by simp
  show "length (filter (\<lambda>y. y < sort ys ! k) ys) \<le> k"
    using count_less_sorted [OF sorted_sort k] by (simp add: length_filter_sort)
  show "length (filter (\<lambda>y. sort ys ! k < y) ys) \<le> length ys - Suc k"
    using count_greater_sorted [OF sorted_sort k] by (simp add: length_filter_sort)
qed

lemma is_median_sort_odd:
  assumes "odd (length ys)"
  shows "is_median ys (sort ys ! (length ys div 2))"
proof -
  have k: "length ys div 2 < length ys"
    using assms by (cases "length ys") auto
  have "2 * (length ys div 2) < length ys"
    using assms by presburger
  moreover have "2 * (length ys - Suc (length ys div 2)) < length ys"
    using assms by presburger
  ultimately show ?thesis
    using sort_nth_counts [OF k] unfolding is_median_def by linarith
qed


lemma push_all_new:
  assumes "0 < w"
  shows "push_all (MedianFilter_new w) xs =
           Inr (\<lparr>win = w, buf = window w xs\<rparr>,
                map (\<lambda>k. median_out w (take (Suc k) xs)) [0..<length xs])"
  using push_all_spec [of "MedianFilter_new w" "[]" xs] assms
  by (simp add: MedianFilter_new_def window_def)

lemma count_split_le:
  fixes a b :: "'a::linorder"
  assumes "a < b"
  shows "length ys \<le> length (filter (\<lambda>y. y < b) ys) + length (filter (\<lambda>y. a < y) ys)"
  using assms by (induction ys) auto

lemma is_median_unique:
  assumes "is_median ys a" and "is_median ys b"
  shows "a = b"
proof (rule ccontr)
  assume "a \<noteq> b"
  then consider "a < b" | "b < a" by (meson linorder_neqE)
  then show False
  proof cases
    case 1
    from count_split_le [OF 1, of ys] assms show False
      by (simp add: is_median_def)
  next
    case 2
    from count_split_le [OF 2, of ys] assms show False
      by (simp add: is_median_def)
  qed
qed

text \<open>
  C4. A filter of window 5, fed any sequence from empty, never faults; it returns
  nothing on each of the first four pushes, and on every later push the median of the
  last five values pushed: the element at index 2 of their sorted copy, which has at most
  two of the five values below it and at most two above it. Pushing 1, 2, 3, 4, 5 returns
  3 on the fifth push.
\<close>

theorem median_window5:
  "(\<exists>f' outs. push_all (MedianFilter_new 5) xs = Inr (f', outs) \<and>
      buf f' = window 5 xs \<and> length outs = length xs \<and>
      (\<forall>i < length xs.
         if i < 4 then outs ! i = None
         else (\<exists>m. outs ! i = Some m \<and>
                 m = sort (window 5 (take (Suc i) xs)) ! 2 \<and>
                 length (window 5 (take (Suc i) xs)) = 5 \<and>
                 is_median (window 5 (take (Suc i) xs)) m))) \<and>
   push_all (MedianFilter_new 5) [1, 2, 3, 4, 5 :: real]
     = Inr (\<lparr>win = 5, buf = [1, 2, 3, 4, 5]\<rparr>, [None, None, None, None, Some 3])"
proof (intro conjI exI)
  let ?outs = "map (\<lambda>k. median_out 5 (take (Suc k) xs)) [0..<length xs]"
  show "push_all (MedianFilter_new 5) xs = Inr (\<lparr>win = 5, buf = window 5 xs\<rparr>, ?outs)"
    by (rule push_all_new) simp
  show "buf \<lparr>win = 5, buf = window 5 xs\<rparr> = window 5 xs" by simp
  show "length ?outs = length xs" by simp
  show "\<forall>i < length xs.
         if i < 4 then ?outs ! i = None
         else (\<exists>m. ?outs ! i = Some m \<and>
                 m = sort (window 5 (take (Suc i) xs)) ! 2 \<and>
                 length (window 5 (take (Suc i) xs)) = 5 \<and>
                 is_median (window 5 (take (Suc i) xs)) m)"
  proof (intro allI impI)
    fix i assume i: "i < length xs"
    show "if i < 4 then ?outs ! i = None
          else (\<exists>m. ?outs ! i = Some m \<and>
                 m = sort (window 5 (take (Suc i) xs)) ! 2 \<and>
                 length (window 5 (take (Suc i) xs)) = 5 \<and>
                 is_median (window 5 (take (Suc i) xs)) m)"
    proof (cases "i < 4")
      case True
      then show ?thesis using i by (simp add: median_out_def)
    next
      case False
      let ?w = "window 5 (take (Suc i) xs)"
      have l: "length ?w = 5"
        using False i by (simp add: length_window)
      then have "is_median ?w (sort ?w ! (length ?w div 2))"
        by (intro is_median_sort_odd) simp
      then have "is_median ?w (sort ?w ! 2)"
        using l by simp
      then show ?thesis
        using False i l by (simp add: median_out_def)
    qed
  qed
  show "push_all (MedianFilter_new 5) [1, 2, 3, 4, 5 :: real]
     = Inr (\<lparr>win = 5, buf = [1, 2, 3, 4, 5]\<rparr>, [None, None, None, None, Some 3])"
    by (simp add: push_def MedianFilter_new_def Let_def)
qed

theorem median_window5_witness:
  "(\<exists>outs. push_all (MedianFilter_new 5) [5, 1, 4, 2, 3, 9 :: real]
             = Inr (\<lparr>win = 5, buf = [1, 4, 2, 3, 9]\<rparr>, outs) \<and>
           outs ! 3 = None \<and> outs ! 4 = Some 3 \<and> outs ! 5 = Some 3 \<and>
           is_median [1, 4, 2, 3, 9 :: real] 3)"
  using median_window5 [of "[5, 1, 4, 2, 3, 9 :: real]"]
  by (simp add: push_def MedianFilter_new_def Let_def is_median_def)

text \<open>
  C7, as the code has it. With an even window \<open>w > 0\<close> a warm filter returns the
  element at index \<open>w div 2\<close> of the sorted window: of the two middle values (indices
  \<open>w div 2 - 1\<close> and \<open>w div 2\<close>) the upper one.
\<close>

theorem even_window_upper_median:
  "0 < w \<and> even w \<longrightarrow>
     (\<exists>f' outs. push_all (MedianFilter_new w) xs = Inr (f', outs) \<and>
        length outs = length xs \<and>
        (\<forall>i < length xs.
           if Suc i < w then outs ! i = None
           else outs ! i = Some (sort (window w (take (Suc i) xs)) ! (w div 2)) \<and>
                length (window w (take (Suc i) xs)) = w \<and>
                sort (window w (take (Suc i) xs)) ! (w div 2 - 1)
                  \<le> sort (window w (take (Suc i) xs)) ! (w div 2)))"
proof (intro impI exI conjI)
  assume h: "0 < w \<and> even w"
  let ?outs = "map (\<lambda>k. median_out w (take (Suc k) xs)) [0..<length xs]"
  show "push_all (MedianFilter_new w) xs = Inr (\<lparr>win = w, buf = window w xs\<rparr>, ?outs)"
    using h by (intro push_all_new) simp
  show "length ?outs = length xs" by simp
  show "\<forall>i < length xs.
           if Suc i < w then ?outs ! i = None
           else ?outs ! i = Some (sort (window w (take (Suc i) xs)) ! (w div 2)) \<and>
                length (window w (take (Suc i) xs)) = w \<and>
                sort (window w (take (Suc i) xs)) ! (w div 2 - 1)
                  \<le> sort (window w (take (Suc i) xs)) ! (w div 2)"
  proof (intro allI impI)
    fix i assume i: "i < length xs"
    show "if Suc i < w then ?outs ! i = None
          else ?outs ! i = Some (sort (window w (take (Suc i) xs)) ! (w div 2)) \<and>
               length (window w (take (Suc i) xs)) = w \<and>
               sort (window w (take (Suc i) xs)) ! (w div 2 - 1)
                 \<le> sort (window w (take (Suc i) xs)) ! (w div 2)"
    proof (cases "Suc i < w")
      case True
      then show ?thesis using i by (simp add: median_out_def)
    next
      case False
      let ?s = "sort (window w (take (Suc i) xs))"
      have l: "length (window w (take (Suc i) xs)) = w"
        using False i by (simp add: length_window)
      have "?s ! (w div 2 - 1) \<le> ?s ! (w div 2)"
        using h l by (intro sorted_nth_mono) simp_all
      then show ?thesis
        using False i l by (simp add: median_out_def)
    qed
  qed
qed

theorem even_window_upper_median_witness:
  "(\<exists>f' outs. push_all (MedianFilter_new 2) [3, 1, 2 :: real] = Inr (f', outs) \<and>
      outs ! 0 = None \<and> outs ! 1 = Some 3 \<and> outs ! 2 = Some 2)"
  using even_window_upper_median [of 2 "[3, 1, 2 :: real]"]
  by (simp add: push_def MedianFilter_new_def Let_def)

text \<open>
  The claim as written (the lower of the two middle values) fails for the window 2 and
  the values 1, 2: the second push returns 2, the lower middle value is 1.
\<close>

theorem even_window_not_lower_median:
  "push_all (MedianFilter_new 2) [1, 2 :: real]
     = Inr (\<lparr>win = 2, buf = [1, 2]\<rparr>, [None, Some 2]) \<and>
   sort [1, 2 :: real] ! (2 div 2 - 1) = 1 \<and>
   sort [1, 2 :: real] ! (2 div 2) = 2"
  by (simp add: push_def MedianFilter_new_def Let_def)

section \<open>Main loop: the drain keeps every channel in step with its own edges\<close>

lemma pulses_of_snoc:
  "pulses_of tr (evs @ [es]) =
     (case pulses_of tr evs of
        (tr', ps) \<Rightarrow>
          (case on_edge tr' es of
             (tr'', p) \<Rightarrow> (tr'', ps @ (case p of None \<Rightarrow> [] | Some pl \<Rightarrow> [pl]))))"
  by (induction evs arbitrary: tr) (auto split: prod.splits option.splits)

lemma tracker_snoc:
  "on_edge (fst (pulses_of tr evs)) es = (tr', p) \<Longrightarrow> fst (pulses_of tr (evs @ [es])) = tr'"
  by (auto simp: pulses_of_snoc split: prod.splits)

lemma dists_snoc_None:
  "on_edge (fst (pulses_of (PulseTracker_new 343) evs)) es = (tr', None)
     \<Longrightarrow> dists (evs @ [es]) = dists evs"
  by (auto simp: dists_def pulses_of_snoc split: prod.splits)

lemma dists_snoc_Some:
  "on_edge (fst (pulses_of (PulseTracker_new 343) evs)) es = (tr', Some p)
     \<Longrightarrow> dists (evs @ [es]) = dists evs @ [distance_m p]"
  by (auto simp: dists_def pulses_of_snoc split: prod.splits)

lemma chan_ok_no_pulse:
  assumes "chan_ok f32 sc d evs" and "on_edge (tracker sc) es = (tr', None)"
  shows "chan_ok f32 (sc\<lparr>tracker := tr'\<rparr>) d (evs @ [es])"
  using assms
  by (simp add: chan_ok_def tracker_snoc dists_snoc_None chan_value_def)

lemma chan_ok_pulse:
  assumes "chan_ok f32 sc d evs" and "on_edge (tracker sc) es = (tr', Some p)"
  shows "push (mf sc) (distance_m p)
           = Inr (\<lparr>win = 5, buf = window 5 (dists (evs @ [es]))\<rparr>, median_out 5 (dists (evs @ [es])))"
    and "median_out 5 (dists (evs @ [es])) = None \<Longrightarrow>
           chan_ok f32 (sc\<lparr>tracker := tr', mf := \<lparr>win = 5, buf = window 5 (dists (evs @ [es]))\<rparr>\<rparr>) d (evs @ [es])"
    and "median_out 5 (dists (evs @ [es])) = Some m \<Longrightarrow>
           chan_ok f32 (sc\<lparr>tracker := tr', mf := \<lparr>win = 5, buf = window 5 (dists (evs @ [es]))\<rparr>\<rparr>) (f32 m) (evs @ [es])"
proof -
  have t: "on_edge (fst (pulses_of (PulseTracker_new 343) evs)) es = (tr', Some p)"
    using assms by (simp add: chan_ok_def)
  have d: "dists (evs @ [es]) = dists evs @ [distance_m p]"
    using t by (rule dists_snoc_Some)
  have m: "mf sc = \<lparr>win = 5, buf = window 5 (dists evs)\<rparr>"
    using assms by (simp add: chan_ok_def)
  show "push (mf sc) (distance_m p)
           = Inr (\<lparr>win = 5, buf = window 5 (dists (evs @ [es]))\<rparr>, median_out 5 (dists (evs @ [es])))"
    using push_step [of "mf sc" "dists evs" "distance_m p"] by (simp add: m d)
  show "chan_ok f32 (sc\<lparr>tracker := tr', mf := \<lparr>win = 5, buf = window 5 (dists (evs @ [es]))\<rparr>\<rparr>) d (evs @ [es])"
    if "median_out 5 (dists (evs @ [es])) = None"
    using that assms(1) tracker_snoc [OF t]
    by (simp add: chan_ok_def chan_value_def median_out_def d split: if_splits)
  show "chan_ok f32 (sc\<lparr>tracker := tr', mf := \<lparr>win = 5, buf = window 5 (dists (evs @ [es]))\<rparr>\<rparr>) (f32 m) (evs @ [es])"
    if "median_out 5 (dists (evs @ [es])) = Some m"
    using that assms(1) tracker_snoc [OF t]
    by (simp add: chan_ok_def chan_value_def median_out_def split: if_splits)
qed

lemma state_ok_update:
  assumes "state_ok f32 n H st" and "idx < n"
    and "chan_ok f32 sc' d' evs'"
  shows "state_ok f32 n (H(idx := evs')) (st\<lparr>sensors := (sensors st)[idx := sc'], tf := (tf st)[idx := d']\<rparr>)"
  using assms by (auto simp: state_ok_def nth_list_update)

lemma handle_event_ok:
  assumes "state_ok f32 n H st" and "idx < n"
  shows "\<exists>st'. handle_event f32 idx es st = Inr st' \<and>
               state_ok f32 n (H(idx := H idx @ [es])) st' \<and>
               next_print st' = next_print st"
proof -
  let ?sc = "sensors st ! idx"
  have c: "chan_ok f32 ?sc (tf st ! idx) (H idx)" and l: "idx < length (tf st)"
    using assms by (auto simp: state_ok_def)
  obtain tr' p where e: "on_edge (tracker ?sc) es = (tr', p)"
    by (cases "on_edge (tracker ?sc) es")
  show ?thesis
  proof (cases p)
    case None
    have "chan_ok f32 (?sc\<lparr>tracker := tr'\<rparr>) (tf st ! idx) (H idx @ [es])"
      using c e unfolding None by (rule chan_ok_no_pulse)
    then have "state_ok f32 n (H(idx := H idx @ [es]))
                 (st\<lparr>sensors := (sensors st)[idx := ?sc\<lparr>tracker := tr'\<rparr>],
                     tf := (tf st)[idx := tf st ! idx]\<rparr>)"
      using assms by (intro state_ok_update)
    then show ?thesis
      using e None by (simp add: handle_event_def)
  next
    case (Some pl)
    let ?mf = "\<lparr>win = 5, buf = window 5 (dists (H idx @ [es]))\<rparr>"
    have e': "on_edge (tracker ?sc) es = (tr', Some pl)"
      using e Some by simp
    note p = chan_ok_pulse [OF c e']
    show ?thesis
    proof (cases "median_out 5 (dists (H idx @ [es]))")
      case None
      have "state_ok f32 n (H(idx := H idx @ [es]))
                 (st\<lparr>sensors := (sensors st)[idx := ?sc\<lparr>tracker := tr', mf := ?mf\<rparr>],
                     tf := (tf st)[idx := tf st ! idx]\<rparr>)"
        using assms p(2) [OF None] by (intro state_ok_update)
      then show ?thesis
        using e' p(1) None by (simp add: handle_event_def)
    next
      case (Some m)
      have "state_ok f32 n (H(idx := H idx @ [es]))
                 (st\<lparr>sensors := (sensors st)[idx := ?sc\<lparr>tracker := tr', mf := ?mf\<rparr>],
                     tf := (tf st)[idx := f32 m]\<rparr>)"
        using assms p(3) [OF Some] by (intro state_ok_update)
      then show ?thesis
        using e' p(1) Some l by (simp add: handle_event_def)
    qed
  qed
qed


lemma drain_sensor_ok:
  assumes "state_ok f32 n H st" and "idx < n"
  shows "\<exists>st'. drain_sensor f32 idx q st = Inr st' \<and>
               state_ok f32 n (H(idx := H idx @ q)) st' \<and>
               next_print st' = next_print st"
  using assms
proof (induction q arbitrary: H st)
  case Nil
  then show ?case by simp
next
  case (Cons es rest)
  obtain st1 where h: "handle_event f32 idx es st = Inr st1"
      and o: "state_ok f32 n (H(idx := H idx @ [es])) st1"
      and p: "next_print st1 = next_print st"
    using handle_event_ok [OF Cons.prems] by blast
  obtain st' where d: "drain_sensor f32 idx rest st1 = Inr st'"
      and o': "state_ok f32 n ((H(idx := H idx @ [es]))(idx := (H(idx := H idx @ [es])) idx @ rest)) st'"
      and p': "next_print st' = next_print st1"
    using Cons.IH [OF o Cons.prems(2)] by blast
  have 1: "drain_sensor f32 idx (es # rest) st = Inr st'"
    using h d by simp
  have 2: "state_ok f32 n (H(idx := H idx @ es # rest)) st'"
    using o' by simp
  have 3: "next_print st' = next_print st"
    using p p' by simp
  show ?case
    using 1 2 3 by blast
qed

lemma state_ok_cong:
  assumes "state_ok f32 n H st" and "\<And>i. i < n \<Longrightarrow> H' i = H i"
  shows "state_ok f32 n H' st"
  using assms by (simp add: state_ok_def)

lemma drain_all_ok:
  assumes "state_ok f32 n H st" and "\<forall>i \<in> set idxs. i < n" and "distinct idxs"
  shows "\<exists>st'. drain_all f32 idxs qs st = Inr st' \<and>
               state_ok f32 n (\<lambda>i. if i \<in> set idxs then H i @ queue_of qs i else H i) st' \<and>
               next_print st' = next_print st"
  using assms
proof (induction idxs arbitrary: H st)
  case Nil
  then show ?case by simp
next
  case (Cons idx idxs)
  let ?H1 = "H(idx := H idx @ queue_of qs idx)"
  obtain st1 where d: "drain_sensor f32 idx (queue_of qs idx) st = Inr st1"
      and o: "state_ok f32 n ?H1 st1"
      and p: "next_print st1 = next_print st"
    using drain_sensor_ok [of f32 n H st idx] Cons.prems by auto
  obtain st' where d': "drain_all f32 idxs qs st1 = Inr st'"
      and o': "state_ok f32 n (\<lambda>i. if i \<in> set idxs then ?H1 i @ queue_of qs i else ?H1 i) st'"
      and p': "next_print st' = next_print st1"
    using Cons.IH [OF o] Cons.prems by auto
  have "state_ok f32 n (\<lambda>i. if i \<in> set (idx # idxs) then H i @ queue_of qs i else H i) st'"
    by (rule state_ok_cong [OF o']) (use Cons.prems(3) in auto)
  then show ?case
    using d d' p p' by simp
qed

lemma state_ok_next_print:
  "state_ok f32 n H (st\<lparr>next_print := x\<rparr>) = state_ok f32 n H st"
  by (simp add: state_ok_def)

lemma loop_iter_ok:
  assumes "state_ok f32 n H st"
  shows "\<exists>st' out. loop_iter f32 iv it st = Inr (st', out) \<and>
           state_ok f32 n (\<lambda>i. H i @ queue_of (fst it) i) st' \<and>
           (out = None \<or> out = Some (snd it, tf st'))"
proof -
  have n: "length (sensors st) = n"
    using assms by (simp add: state_ok_def)
  obtain st1 where d: "drain_all f32 [0..<n] (fst it) st = Inr st1"
      and o: "state_ok f32 n (\<lambda>i. if i \<in> set [0..<n] then H i @ queue_of (fst it) i else H i) st1"
    using drain_all_ok [OF assms, of "[0..<n]" "fst it"] by auto
  have o': "state_ok f32 n (\<lambda>i. H i @ queue_of (fst it) i) st1"
    using o by (rule state_ok_cong) simp
  show ?thesis
    using d o' n by (simp add: loop_iter_def state_ok_next_print)
qed

lemma chan_events_Cons:
  "chan_events idx (it # its) = queue_of (fst it) idx @ chan_events idx its"
  by (simp add: chan_events_def)

lemma main_loop_ok:
  assumes "state_ok f32 n H st"
  shows "\<exists>st' outs. main_loop f32 iv its st = Inr (st', outs) \<and>
           length outs = length its \<and>
           (\<forall>j < length its. \<forall>now fr. outs ! j = Some (now, fr) \<longrightarrow>
              now = snd (its ! j) \<and> length fr = 5 \<and>
              (\<forall>i < n. fr ! i = chan_value f32 (H i @ chan_events i (take (Suc j) its))))"
  using assms
proof (induction its arbitrary: H st)
  case Nil
  then show ?case by simp
next
  case (Cons it its)
  let ?H1 = "\<lambda>i. H i @ queue_of (fst it) i"
  obtain st1 out where l: "loop_iter f32 iv it st = Inr (st1, out)"
      and o: "state_ok f32 n ?H1 st1"
      and out: "out = None \<or> out = Some (snd it, tf st1)"
    using loop_iter_ok [OF Cons.prems] by blast
  obtain st' outs where m: "main_loop f32 iv its st1 = Inr (st', outs)"
      and len: "length outs = length its"
      and fr: "\<And>j now fr. j < length its \<Longrightarrow> outs ! j = Some (now, fr) \<Longrightarrow>
              now = snd (its ! j) \<and> length fr = 5 \<and>
              (\<forall>i < n. fr ! i = chan_value f32 (?H1 i @ chan_events i (take (Suc j) its)))"
    using Cons.IH [OF o] by blast
  have "now = snd ((it # its) ! j) \<and> length fr = 5 \<and>
        (\<forall>i < n. fr ! i = chan_value f32 (H i @ chan_events i (take (Suc j) (it # its))))"
    if j: "j < length (it # its)" and s: "(out # outs) ! j = Some (now, fr)" for j now fr
  proof (cases j)
    case 0
    then have "out = Some (now, fr)" using s by simp
    then have "now = snd it" and "fr = tf st1" using out by auto
    then show ?thesis
      using o 0 by (simp add: state_ok_def chan_ok_def chan_events_def)
  next
    case (Suc k)
    then have "k < length its" and "outs ! k = Some (now, fr)"
      using j s by simp_all
    then show ?thesis
      using fr [of k now fr] Suc by (simp add: chan_events_Cons)
  qed
  then show ?case
    using l m len by simp
qed

lemma state_ok_init:
  "n \<le> 5 \<Longrightarrow> state_ok f32 n (\<lambda>i. []) (main_init n t0)"
  by (simp add: state_ok_def main_init_def chan_ok_def SensorCtx_new_def MedianFilter_new_def
      window_def dists_def chan_value_def)






section \<open>Export rate\<close>

lemma handle_event_next_print:
  "handle_event f32 idx es st = Inr st' \<Longrightarrow> next_print st' = next_print st"
  by (auto simp: handle_event_def Let_def split: prod.splits option.splits sum.splits if_splits)

lemma drain_sensor_next_print:
  "drain_sensor f32 idx q st = Inr st' \<Longrightarrow> next_print st' = next_print st"
  by (induction q arbitrary: st) (auto split: sum.splits dest: handle_event_next_print)

lemma drain_all_next_print:
  "drain_all f32 idxs qs st = Inr st' \<Longrightarrow> next_print st' = next_print st"
  by (induction idxs arbitrary: st) (auto split: sum.splits dest: drain_sensor_next_print)

lemma loop_iter_tick:
  assumes "loop_iter f32 iv it st = Inr (st', out)"
  shows "if next_print st \<le> snd it
         then (\<exists>fr. out = Some (snd it, fr)) \<and> next_print st' = next_print st + iv
         else out = None \<and> next_print st' = next_print st"
  using assms
  by (auto simp: loop_iter_def split: sum.splits if_splits dest: drain_all_next_print)

lemma print_times_Cons:
  "print_times (out # outs) = (case out of None \<Rightarrow> [] | Some (now, fr) \<Rightarrow> [now]) @ print_times outs"
  by (simp add: print_times_def)

lemma main_loop_print_times:
  assumes "main_loop f32 iv its st = Inr (st', outs)" and "k < length (print_times outs)"
  shows "next_print st + int k * iv \<le> print_times outs ! k"
  using assms
proof (induction its arbitrary: st outs k)
  case Nil
  then show ?case by (simp add: print_times_def)
next
  case (Cons it its)
  from Cons.prems(1) obtain st1 out outs' where l: "loop_iter f32 iv it st = Inr (st1, out)"
      and m: "main_loop f32 iv its st1 = Inr (st', outs')" and o: "outs = out # outs'"
    by (auto split: sum.splits)
  note t = loop_iter_tick [OF l]
  show ?case
  proof (cases "next_print st \<le> snd it")
    case True
    then obtain fr where out: "out = Some (snd it, fr)" and n: "next_print st1 = next_print st + iv"
      using t by auto
    have pt: "print_times outs = snd it # print_times outs'"
      using o out by (simp add: print_times_Cons)
    show ?thesis
    proof (cases k)
      case 0
      then show ?thesis using True pt by simp
    next
      case (Suc k')
      then have "k' < length (print_times outs')"
        using Cons.prems(2) pt by simp
      then have "next_print st1 + int k' * iv \<le> print_times outs' ! k'"
        using Cons.IH [OF m] by simp
      then show ?thesis
        using Suc pt n by (simp add: algebra_simps)
    qed
  next
    case False
    then have out: "out = None" and n: "next_print st1 = next_print st"
      using t by auto
    have pt: "print_times outs = print_times outs'"
      using o out by (simp add: print_times_Cons)
    show ?thesis
      using Cons.IH [OF m, of k] Cons.prems(2) pt n by simp
  qed
qed


lemma word_diff_mono_left:
  fixes a b t :: "'a::len word"
  assumes "a \<le> b" and "b \<le> t"
  shows "t - b \<le> t - a"
proof -
  have "a \<le> t" using assms by simp
  then have "unat (t - a) = unat t - unat a" by (simp add: unat_sub)
  moreover have "unat (t - b) = unat t - unat b" using assms by (simp add: unat_sub)
  ultimately show ?thesis
    using assms by (simp add: word_le_nat_alt)
qed

lemma can_loop_spaced:
  assumes "0 < rate_hz"
    and "\<forall>x y. x \<le> y \<longrightarrow> cvt x \<le> cvt y"
    and "sorted nows" and "0 \<notin> set nows"
    and "last_sent = 0 \<or> (\<forall>t \<in> set nows. last_sent \<le> t)"
  shows "(last_sent \<noteq> 0 \<longrightarrow>
            (\<forall>t \<in> set (can_loop ddiv cvt rate_hz last_sent nows).
               ddiv (10 ^ 9) rate_hz \<le> cvt (t - last_sent))) \<and>
         sorted_wrt (\<lambda>a b. a \<le> b \<and> ddiv (10 ^ 9) rate_hz \<le> cvt (b - a))
           (can_loop ddiv cvt rate_hz last_sent nows) \<and>
         set (can_loop ddiv cvt rate_hz last_sent nows) \<subseteq> set nows"
  using assms
proof (induction nows arbitrary: last_sent)
  case Nil
  then show ?case by simp
next
  case (Cons now rest)
  let ?d = "ddiv (10 ^ 9) rate_hz"
  have srt: "sorted rest" and nz: "0 \<notin> set rest" and now0: "now \<noteq> 0"
    and le: "\<forall>t \<in> set rest. now \<le> t"
    using Cons.prems by auto
  show ?case
  proof (cases "snd (can_tick ddiv cvt rate_hz now last_sent)")
    case False
    then have ct: "can_tick ddiv cvt rate_hz now last_sent = (last_sent, False)"
      by (auto simp: can_tick_def split: if_splits)
    have "last_sent = 0 \<or> (\<forall>t \<in> set rest. last_sent \<le> t)"
      using Cons.prems(5) by auto
    then show ?thesis
      using Cons.IH [OF Cons.prems(1) Cons.prems(2) srt nz, of last_sent] ct by auto
  next
    case True
    then have ct: "can_tick ddiv cvt rate_hz now last_sent = (now, True)"
      by (auto simp: can_tick_def split: if_splits)
    have ih: "(\<forall>t \<in> set (can_loop ddiv cvt rate_hz now rest). ?d \<le> cvt (t - now)) \<and>
         sorted_wrt (\<lambda>a b. a \<le> b \<and> ?d \<le> cvt (b - a)) (can_loop ddiv cvt rate_hz now rest) \<and>
         set (can_loop ddiv cvt rate_hz now rest) \<subseteq> set rest"
      using Cons.IH [OF Cons.prems(1) Cons.prems(2) srt nz, of now] le now0 by simp
    have cl: "can_loop ddiv cvt rate_hz last_sent (now # rest) = now # can_loop ddiv cvt rate_hz now rest"
      using ct by simp
    have first: "?d \<le> cvt (now - last_sent)" if l: "last_sent \<noteq> 0"
      using True l Cons.prems(1)
      by (auto simp: can_tick_def rate_limit_def min_interval_ns_def split: if_splits)
    have "\<forall>t \<in> set (can_loop ddiv cvt rate_hz last_sent (now # rest)).
               ?d \<le> cvt (t - last_sent)" if l: "last_sent \<noteq> 0"
    proof
      fix t assume "t \<in> set (can_loop ddiv cvt rate_hz last_sent (now # rest))"
      then consider "t = now" | "t \<in> set (can_loop ddiv cvt rate_hz now rest)"
        unfolding cl by auto
      then show "?d \<le> cvt (t - last_sent)"
      proof cases
        case 1
        then show ?thesis using first [OF l] by simp
      next
        case 2
        then have d: "?d \<le> cvt (t - now)" and "t \<in> set rest" using ih by blast+
        then have "now \<le> t" using le by simp
        moreover have "last_sent \<le> now" using Cons.prems(5) l by simp
        ultimately have "t - now \<le> t - last_sent"
          by (intro word_diff_mono_left)
        then have "cvt (t - now) \<le> cvt (t - last_sent)"
          using Cons.prems(2) by simp
        then show ?thesis using d by linarith
      qed
    qed
    moreover have "\<forall>t \<in> set (can_loop ddiv cvt rate_hz now rest). now \<le> t"
      using ih le by blast
    ultimately show ?thesis
      using ih unfolding cl by auto
  qed
qed

text \<open>
  C5, as the code has it. In \<open>main\<close> a frame is printed exactly when
  \<open>now >= next_print\<close>, and \<open>next_print\<close> then advances by one interval (not to
  \<open>now\<close>): the print number \<open>k\<close>, counted from 0, happens no earlier than
  \<open>k\<close> intervals after the start, on any sequence of clock readings. In the CAN bridge a
  frame is sent unless rate limiting is on, something was sent before
  (\<open>last_sent_ns\<close> is not 0) and the difference to the last send, converted to
  \<open>double\<close>, is below the stored \<open>double\<close> \<open>1e9 / rate_hz\<close>; with rate limiting on,
  a conversion that is monotone, and non-decreasing, nonzero clock readings, any two
  sends are in order and their difference, converted, is at least the stored interval.
\<close>

theorem export_tick_rate:
  "(loop_iter f32 iv it st = Inr (st', out) \<longrightarrow>
      (if next_print st \<le> snd it
       then (\<exists>fr. out = Some (snd it, fr)) \<and> next_print st' = next_print st + iv
       else out = None \<and> next_print st' = next_print st)) \<and>
   (main_loop f32 iv its st0 = Inr (st1, outs) \<longrightarrow>
      (\<forall>k < length (print_times outs). next_print st0 + int k * iv \<le> print_times outs ! k)) \<and>
   can_tick ddiv u64_to_double rate_hz now_ns last_sent =
      (if 0 < rate_hz \<and> last_sent \<noteq> 0 \<and>
          u64_to_double (now_ns - last_sent) < ddiv (10 ^ 9) rate_hz
       then (last_sent, False) else (now_ns, True)) \<and>
   (0 < rate_hz \<and> (\<forall>x y. x \<le> y \<longrightarrow> u64_to_double x \<le> u64_to_double y) \<and>
    sorted nows \<and> 0 \<notin> set nows \<longrightarrow>
      (\<forall>i j. i < j \<and> j < length (can_loop ddiv u64_to_double rate_hz 0 nows) \<longrightarrow>
         can_loop ddiv u64_to_double rate_hz 0 nows ! i
           \<le> can_loop ddiv u64_to_double rate_hz 0 nows ! j \<and>
         ddiv (10 ^ 9) rate_hz
           \<le> u64_to_double (can_loop ddiv u64_to_double rate_hz 0 nows ! j
                              - can_loop ddiv u64_to_double rate_hz 0 nows ! i)))"
proof (intro conjI impI allI)
  assume "loop_iter f32 iv it st = Inr (st', out)"
  then show "if next_print st \<le> snd it
       then (\<exists>fr. out = Some (snd it, fr)) \<and> next_print st' = next_print st + iv
       else out = None \<and> next_print st' = next_print st"
    by (rule loop_iter_tick)
next
  fix k
  assume "main_loop f32 iv its st0 = Inr (st1, outs)" and "k < length (print_times outs)"
  then show "next_print st0 + int k * iv \<le> print_times outs ! k"
    by (rule main_loop_print_times)
next
  show "can_tick ddiv u64_to_double rate_hz now_ns last_sent =
      (if 0 < rate_hz \<and> last_sent \<noteq> 0 \<and>
          u64_to_double (now_ns - last_sent) < ddiv (10 ^ 9) rate_hz
       then (last_sent, False) else (now_ns, True))"
    by (simp add: can_tick_def rate_limit_def min_interval_ns_def)
next
  fix i j
  let ?out = "can_loop ddiv u64_to_double rate_hz 0 nows"
  assume h: "0 < rate_hz \<and> (\<forall>x y. x \<le> y \<longrightarrow> u64_to_double x \<le> u64_to_double y) \<and>
    sorted nows \<and> 0 \<notin> set nows"
    and ij: "i < j \<and> j < length ?out"
  have "sorted_wrt (\<lambda>a b. a \<le> b \<and> ddiv (10 ^ 9) rate_hz \<le> u64_to_double (b - a)) ?out"
    using can_loop_spaced [of rate_hz u64_to_double nows 0 ddiv] h by simp
  then have "?out ! i \<le> ?out ! j \<and> ddiv (10 ^ 9) rate_hz \<le> u64_to_double (?out ! j - ?out ! i)"
    using ij by (simp add: sorted_wrt_iff_nth_less)
  then show "?out ! i \<le> ?out ! j"
    and "ddiv (10 ^ 9) rate_hz \<le> u64_to_double (?out ! j - ?out ! i)"
    by simp_all
qed

theorem export_tick_rate_witness:
  "loop_iter id 100 ([], 250) (main_init 5 0)
     = Inr ((main_init 5 0)\<lparr>next_print := 100\<rparr>, Some (250, [0, 0, 0, 0, 0])) \<and>
   main_loop id 100 [([], 0), ([], 250), ([], 260), ([], 270)] (main_init 5 0)
     = Inr ((main_init 5 0)\<lparr>next_print := 300\<rparr>,
            [Some (0, [0, 0, 0, 0, 0]), Some (250, [0, 0, 0, 0, 0]),
             Some (260, [0, 0, 0, 0, 0]), None]) \<and>
   print_times [Some (0, [0, 0, 0, 0, 0]), Some (250, [0, 0, 0, 0, 0]),
                Some (260, [0, 0, 0, 0, 0]), None] = [0, 250, 260] \<and>
   can_tick (/) u64_exact 20 50000004 5 = (5, False) \<and>
   sorted [5, 6, 50000004, 50000005, 50000006, 100000005 :: 64 word] \<and>
   can_loop (/) u64_exact 20 0 [5, 6, 50000004, 50000005, 50000006, 100000005]
     = [5, 50000005, 100000005] \<and>
   (10 ^ 9 / 20 :: real) \<le> u64_exact (50000005 - 5) \<and>
   can_loop (\<lambda>a b. 3) u64_exact (5592405333333333 / 16777216) 0 [7, 10, 11] = [7, 10]"
proof -
  have a: "loop_iter id 100 ([], 250) (main_init 5 0)
     = Inr ((main_init 5 0)\<lparr>next_print := 100\<rparr>, Some (250, [0, 0, 0, 0, 0]))"
    by (simp add: loop_iter_def main_init_def queue_of_def upt_rec eval_nat_numeral)
  have b: "main_loop id 100 [([], 0), ([], 250), ([], 260), ([], 270)] (main_init 5 0)
     = Inr ((main_init 5 0)\<lparr>next_print := 300\<rparr>,
            [Some (0, [0, 0, 0, 0, 0]), Some (250, [0, 0, 0, 0, 0]),
             Some (260, [0, 0, 0, 0, 0]), None])"
    by (simp add: loop_iter_def main_init_def queue_of_def upt_rec eval_nat_numeral)
  have c: "can_loop (/) u64_exact 20 0 [5, 6, 50000004, 50000005, 50000006, 100000005]
             = [5, 50000005, 100000005]"
    by (simp add: can_tick_def rate_limit_def min_interval_ns_def u64_exact_def)
  have d: "sorted [5, 6, 50000004, 50000005, 50000006, 100000005 :: 64 word]"
    by simp
  have p: "print_times [Some (0, [0, 0, 0, 0, 0]), Some (250, [0, 0, 0, 0, 0]),
                Some (260, [0, 0, 0, 0, 0]), None] = [0 :: int, 250, 260]"
    by (simp add: print_times_def)
  have m: "\<forall>x y. x \<le> y \<longrightarrow> u64_exact x \<le> u64_exact y"
  proof (intro allI impI)
    fix x y :: u64
    assume "x \<le> y"
    then have "unat x \<le> unat y" by (simp add: word_le_nat_alt)
    then show "u64_exact x \<le> u64_exact y"
      unfolding u64_exact_def by (rule of_nat_mono)
  qed
  have v: "can_loop (\<lambda>a b. 3) u64_exact (5592405333333333 / 16777216) 0 [7, 10, 11] = [7, 10]"
    by (simp add: can_tick_def rate_limit_def min_interval_ns_def u64_exact_def)
  have e: "(10 ^ 9 / 20 :: real) \<le> u64_exact (50000005 - 5)"
    by (simp add: u64_exact_def)
  have t: "can_tick (/) u64_exact 20 50000004 5 = (5, False)"
    by (simp add: can_tick_def rate_limit_def min_interval_ns_def u64_exact_def)
  show ?thesis
    using a b c d p m v e t
      export_tick_rate [where ?f32.0 = id and iv = 100 and it = "([], 250)"
        and st = "main_init 5 0" and st' = "(main_init 5 0)\<lparr>next_print := 100\<rparr>"
        and out = "Some (250, [0, 0, 0, 0, 0])"
        and its = "[([], 0), ([], 250), ([], 260), ([], 270)]" and ?st0.0 = "main_init 5 0"
        and ?st1.0 = "(main_init 5 0)\<lparr>next_print := 300\<rparr>"
        and outs = "[Some (0, [0, 0, 0, 0, 0]), Some (250, [0, 0, 0, 0, 0]),
             Some (260, [0, 0, 0, 0, 0]), None]"
        and ddiv = "(/)" and u64_to_double = u64_exact
        and rate_hz = 20 and now_ns = 50000004 and last_sent = 5
        and nows = "[5, 6, 50000004, 50000005, 50000006, 100000005]"]
    by simp
qed

text \<open>
  The claim as written fails in \<open>main\<close>: with an interval of 100 and the clock readings
  0, 250, 260 the loop prints at all three, the last two 10 apart.
\<close>

theorem export_tick_catches_up:
  "map_sum id snd (main_loop id 100 [([], 0), ([], 250), ([], 260)] (main_init 5 0))
     = Inr [Some (0, [0, 0, 0, 0, 0]), Some (250, [0, 0, 0, 0, 0]), Some (260, [0, 0, 0, 0, 0])] \<and>
   (260 :: int) - 250 < 100"
  by (simp add: loop_iter_def main_init_def queue_of_def upt_rec eval_nat_numeral)

section \<open>Construction\<close>

text \<open>
  C8, as the code has it. The constructors check nothing and cannot fail: for every
  window and every speed they return the object holding the argument, and \<open>main\<close> runs
  with no line at all. A window of 0 shows at the first push, which reads outside an
  empty vector; a speed that is not positive gives every pulse of non-negative width a
  distance that is not positive.
\<close>

theorem construction_unchecked:
  "MedianFilter_new w = \<lparr>win = w, buf = ([] :: 'a list)\<rparr> \<and>
   PulseTracker_new c = \<lparr>t_rise = None, c_speed = c\<rparr> \<and>
   push (MedianFilter_new 0) (v :: 'a :: linorder) = Inl OutOfRange \<and>
   (c \<le> 0 \<and> edge es = Falling \<and> r \<le> ts es \<longrightarrow>
      (\<exists>p. on_edge ((PulseTracker_new c)\<lparr>t_rise := Some r\<rparr>) es = (PulseTracker_new c, Some p) \<and>
           distance_m p \<le> 0)) \<and>
   (\<exists>st outs. main_loop f32 iv its (main_init 0 t0) = Inr (st, outs) \<and> length outs = length its)"
proof (intro conjI impI)
  show "MedianFilter_new w = \<lparr>win = w, buf = ([] :: 'a list)\<rparr>"
    by (simp add: MedianFilter_new_def)
  show "PulseTracker_new c = \<lparr>t_rise = None, c_speed = c\<rparr>"
    by (simp add: PulseTracker_new_def)
  show "push (MedianFilter_new 0) v = Inl OutOfRange"
    by (simp add: push_def MedianFilter_new_def)
  show "\<exists>st outs. main_loop f32 iv its (main_init 0 t0) = Inr (st, outs) \<and> length outs = length its"
    using main_loop_ok [OF state_ok_init [of 0 f32 t0], of iv its] by auto
next
  assume h: "c \<le> 0 \<and> edge es = Falling \<and> r \<le> ts es"
  then have "c * (real_of_int (ts es - r) * (1 / 10 ^ 9)) / 2 \<le> 0"
    by (simp add: mult_nonpos_nonneg divide_nonpos_nonneg)
  then show "\<exists>p. on_edge ((PulseTracker_new c)\<lparr>t_rise := Some r\<rparr>) es = (PulseTracker_new c, Some p) \<and>
           distance_m p \<le> 0"
    using h by (simp add: on_edge_def PulseTracker_new_def Let_def)
qed

theorem construction_unchecked_witness:
  "push (MedianFilter_new 0) (1 :: real) = Inl OutOfRange \<and>
   on_edge ((PulseTracker_new (- 343))\<lparr>t_rise := Some 0\<rparr>) \<lparr>edge = Falling, ts = 2000000\<rparr>
     = (PulseTracker_new (- 343), Some \<lparr>width = 2000000, distance_m = - (343 / 1000)\<rparr>)"
  using construction_unchecked [where c = "- 343" and es = "\<lparr>edge = Falling, ts = 2000000\<rparr>"
      and r = 0 and v = "1 :: real" and its = "[]"]
  by (simp add: on_edge_def PulseTracker_new_def Let_def push_def MedianFilter_new_def)

text \<open>
  The claim as written fails: a filter of window 0 and a tracker of speed -343 are
  constructed, the tracker turns a rising and a falling edge into a pulse of -0.343 m,
  and \<open>main\<close> with no line prints a frame.
\<close>

theorem construction_does_not_fail:
  "MedianFilter_new 0 = \<lparr>win = 0, buf = ([] :: real list)\<rparr> \<and>
   push (MedianFilter_new 0) (1 :: real) = Inl OutOfRange \<and>
   PulseTracker_new (- 343) = \<lparr>t_rise = None, c_speed = - 343\<rparr> \<and>
   on_edge (fst (on_edge (PulseTracker_new (- 343)) \<lparr>edge = Rising, ts = 0\<rparr>))
       \<lparr>edge = Falling, ts = 2000000\<rparr>
     = (\<lparr>t_rise = None, c_speed = - 343\<rparr>,
        Some \<lparr>width = 2000000, distance_m = - (343 / 1000)\<rparr>) \<and>
   map_sum id snd (main_loop id 100 [([], 0)] (main_init 0 0)) = Inr [Some (0, [0, 0, 0, 0, 0])]"
  by (simp add: MedianFilter_new_def push_def PulseTracker_new_def on_edge_def Let_def
      loop_iter_def main_init_def eval_nat_numeral)

section \<open>Reads of the kernel state\<close>

lemma g_init_list:
  "g_init = \<lparr>g_s = [\<lparr>have_rise = False, rise_ts = 0, dist_um = 0, pulses = 0, overruns = 0\<rparr>,
                    \<lparr>have_rise = False, rise_ts = 0, dist_um = 0, pulses = 0, overruns = 0\<rparr>,
                    \<lparr>have_rise = False, rise_ts = 0, dist_um = 0, pulses = 0, overruns = 0\<rparr>,
                    \<lparr>have_rise = False, rise_ts = 0, dist_um = 0, pulses = 0, overruns = 0\<rparr>,
                    \<lparr>have_rise = False, rise_ts = 0, dist_um = 0, pulses = 0, overruns = 0\<rparr>],
              g_seq = 0\<rparr>"
  by (simp add: g_init_def MAX_SENSORS_def eval_nat_numeral)

lemma upt_MAX_SENSORS: "[0..<MAX_SENSORS] = [0, 1, 2, 3, 4]"
  by (simp add: MAX_SENSORS_def upt_rec)

lemma length_run_steps: "length (snd (run_steps t g)) = length t"
  by (induction t arbitrary: g) (simp_all add: case_prod_beta)

lemma length_history: "length (history t g) = Suc (length t)"
  by (induction t arbitrary: g) auto

lemma fst_run_steps: "fst (run_steps t g) = last (history t g)"
proof (induction t arbitrary: g)
  case Nil
  then show ?case by simp
next
  case (Cons x xs)
  have "history xs (fst (do_step x g)) \<noteq> []"
    using length_history [of xs "fst (do_step x g)"] by auto
  then show ?case
    using Cons.IH [of "fst (do_step x g)"] by (auto split: prod.splits)
qed

lemma run_steps_nth:
  "k < length t \<Longrightarrow>
     snd (run_steps t g) ! k = snd (do_step (t ! k) (history t g ! k)) \<and>
     history t g ! Suc k = fst (do_step (t ! k) (history t g ! k))"
proof (induction t arbitrary: g k)
  case Nil
  then show ?case by simp
next
  case (Cons x xs)
  show ?case
  proof (cases k)
    case 0
    then show ?thesis
      by (cases xs) (auto split: prod.splits)
  next
    case (Suc j)
    then have "j < length xs" using Cons.prems by simp
    from Cons.IH [OF this, of "fst (do_step x g)"] show ?thesis
      using Suc by (auto split: prod.splits)
  qed
qed

lemmas kernel_eval = torn_run_def g_init_list echo_irq_thread_def width_ns_to_um_def
  distances_read_def stats_read_def upt_MAX_SENSORS chan_triple_def Let_def

text \<open>
  C6, as the code has it. In every interleaving of handlers and readers each read is of
  one state of the run: \<open>distances_read\<close> returns the \<open>dist_um\<close> of all five sensors
  in the state in which it took the lock, \<open>stats_read\<close> returns \<open>seq\<close> and the
  \<open>pulses\<close> and \<open>overruns\<close> of all five sensors in the state in which it took the
  lock, neither changes the state, and a handler step returns nothing to a reader. No
  read copies a distance together with its counters.
\<close>

theorem reads_single_state:
  "length (snd (run_steps t g)) = length t \<and>
   length (history t g) = Suc (length t) \<and>
   history t g ! 0 = g \<and>
   fst (run_steps t g) = last (history t g) \<and>
   (\<forall>k < length t.
      (t ! k = Read_distances \<longrightarrow>
         snd (run_steps t g) ! k
           = Some (Distances (map (\<lambda>i. dist_um (g_s (history t g ! k) ! i)) [0..<MAX_SENSORS])) \<and>
         history t g ! Suc k = history t g ! k) \<and>
      (t ! k = Read_stats \<longrightarrow>
         snd (run_steps t g) ! k
           = Some (Stats (g_seq (history t g ! k))
                     (map (\<lambda>i. pulses (g_s (history t g ! k) ! i)) [0..<MAX_SENSORS])
                     (map (\<lambda>i. overruns (g_s (history t g ! k) ! i)) [0..<MAX_SENSORS])) \<and>
         history t g ! Suc k = history t g ! k) \<and>
      (\<forall>idx now level. t ! k = Irq idx now level \<longrightarrow>
         snd (run_steps t g) ! k = None \<and>
         history t g ! Suc k = echo_irq_thread idx now level (history t g ! k)))"
proof (intro conjI allI impI)
  show "length (snd (run_steps t g)) = length t" by (rule length_run_steps)
  show "length (history t g) = Suc (length t)" by (rule length_history)
  show "history t g ! 0 = g" by (cases t) simp_all
  show "fst (run_steps t g) = last (history t g)" by (rule fst_run_steps)
next
  fix k assume "k < length t" and "t ! k = Read_distances"
  then show "snd (run_steps t g) ! k
           = Some (Distances (map (\<lambda>i. dist_um (g_s (history t g ! k) ! i)) [0..<MAX_SENSORS]))"
    and "history t g ! Suc k = history t g ! k"
    using run_steps_nth [of k t g] by (simp_all add: distances_read_def)
next
  fix k assume "k < length t" and "t ! k = Read_stats"
  then show "snd (run_steps t g) ! k
           = Some (Stats (g_seq (history t g ! k))
                     (map (\<lambda>i. pulses (g_s (history t g ! k) ! i)) [0..<MAX_SENSORS])
                     (map (\<lambda>i. overruns (g_s (history t g ! k) ! i)) [0..<MAX_SENSORS]))"
    and "history t g ! Suc k = history t g ! k"
    using run_steps_nth [of k t g] by (simp_all add: stats_read_def)
next
  fix k idx now level assume "k < length t" and "t ! k = Irq idx now level"
  then show "snd (run_steps t g) ! k = None"
    and "history t g ! Suc k = echo_irq_thread idx now level (history t g ! k)"
    using run_steps_nth [of k t g] by simp_all
qed

theorem reads_single_state_witness:
  "torn_run ! 0 = Irq 0 1000 1 \<and>
   snd (run_steps torn_run g_init) ! 0 = None \<and>
   history torn_run g_init ! 1 = echo_irq_thread 0 1000 1 g_init \<and>
   torn_run ! 2 = Read_distances \<and>
   snd (run_steps torn_run g_init) ! 2 = Some (Distances [343000, 0, 0, 0, 0]) \<and>
   chan_triple 0 (history torn_run g_init ! 2) = (343000, 1, 0) \<and>
   torn_run ! 5 = Read_stats \<and>
   snd (run_steps torn_run g_init) ! 5 = Some (Stats 4 [2, 0, 0, 0, 0] [0, 0, 0, 0, 0]) \<and>
   chan_triple 0 (history torn_run g_init ! 5) = (686000, 2, 0)"
proof -
  have a: "snd (run_steps torn_run g_init)
             = [None, None, Some (Distances [343000, 0, 0, 0, 0]),
                None, None, Some (Stats 4 [2, 0, 0, 0, 0] [0, 0, 0, 0, 0])]"
    by (simp add: kernel_eval)
  have b: "map (chan_triple 0) (history torn_run g_init)
             = [(0, 0, 0), (0, 0, 0), (343000, 1, 0), (343000, 1, 0), (343000, 1, 0),
                (686000, 2, 0), (686000, 2, 0)]"
    by (simp add: kernel_eval)
  have c: "length (history torn_run g_init) = 7"
    by (simp add: torn_run_def)
  have "chan_triple 0 (history torn_run g_init ! 2) = map (chan_triple 0) (history torn_run g_init) ! 2"
    and "chan_triple 0 (history torn_run g_init ! 5) = map (chan_triple 0) (history torn_run g_init) ! 5"
    using c by simp_all
  then have d: "chan_triple 0 (history torn_run g_init ! 2) = (343000, 1, 0)"
    and e: "chan_triple 0 (history torn_run g_init ! 5) = (686000, 2, 0)"
    unfolding b by simp_all
  have f: "torn_run ! 2 = Read_distances" "torn_run ! 5 = Read_stats"
      "torn_run ! 0 = Irq 0 1000 1"
    by (simp_all add: torn_run_def)
  have h: "history torn_run g_init ! 1 = echo_irq_thread 0 1000 1 g_init"
    by (simp add: torn_run_def)
  show ?thesis
    using a d e f h reads_single_state [of torn_run g_init]
    by simp
qed

text \<open>
  The claim as written fails: the triple of a sensor is put together from two reads.
  With the distances read after the first pulse and the counters after the second, the
  reader holds 343000, 2, 0 for sensor 0, a triple sensor 0 never had.
\<close>

theorem torn_triple:
  "snd (run_steps torn_run g_init)
     = [None, None, Some (Distances [343000, 0, 0, 0, 0]),
        None, None, Some (Stats 4 [2, 0, 0, 0, 0] [0, 0, 0, 0, 0])] \<and>
   map (chan_triple 0) (history torn_run g_init)
     = [(0, 0, 0), (0, 0, 0), (343000, 1, 0), (343000, 1, 0), (343000, 1, 0),
        (686000, 2, 0), (686000, 2, 0)] \<and>
   (343000, 2, 0) \<notin> set (map (chan_triple 0) (history torn_run g_init))"
proof -
  have b: "map (chan_triple 0) (history torn_run g_init)
             = [(0, 0, 0), (0, 0, 0), (343000, 1, 0), (343000, 1, 0), (343000, 1, 0),
                (686000, 2, 0), (686000, 2, 0)]"
    by (simp add: kernel_eval)
  have a: "snd (run_steps torn_run g_init)
             = [None, None, Some (Distances [343000, 0, 0, 0, 0]),
                None, None, Some (Stats 4 [2, 0, 0, 0, 0] [0, 0, 0, 0, 0])]"
    by (simp add: kernel_eval)
  show ?thesis
    unfolding b using a by simp
qed

end
